theory Spec2Isabelle
  imports Main "HOL-Library.Multiset"
begin

text \<open>
  The loadout slot machine. Two samplers of the class \<open>SlotMachine\<close> are modelled: the
  constrained sampler \<open>_pickStratagemsWithConstraints\<close> (the revision of \<open>slot.js\<close> with
  the strict mode) and the \<open>groupByField\<close> branch of \<open>spin\<close> and \<open>seed\<close> (both revisions
  of \<open>slot.js\<close>). The parameter \<open>count\<close> is written \<open>cnt\<close> throughout.
\<close>

section \<open>Data model\<close>

text \<open>
  An item is one row of the CSV as \<open>parseCsv\<close> builds it: a JavaScript object whose
  properties are strings. It is modelled as an association list from property names to
  values; reading a property that the object does not have gives \<open>undefined\<close>, here
  \<open>None\<close>. A slot of a selection is an item or \<open>null\<close>, here \<open>None\<close>.
\<close>

type_synonym item = "(string \<times> string) list"

type_synonym slot = "item option"

definition getProp :: "item \<Rightarrow> string \<Rightarrow> string option" where
  "getProp x name = map_of x name"

text \<open>
  \<open>v || ''\<close> on a property value: \<open>undefined\<close> and the empty string are falsy and give
  the empty string, every other string is truthy and is kept. \<open>String(s)\<close> is the
  identity on a string.
\<close>

definition orEmpty :: "string option \<Rightarrow> string" where
  "orEmpty v = (case v of None \<Rightarrow> [] | Some s \<Rightarrow> (if s = [] then [] else s))"

text \<open>
  Lower-casing of the letters \<open>A..Z\<close>, for the three comparisons of \<open>satisfies\<close> only:
  \<open>s.toLowerCase() === c\<close> with \<open>c\<close> one of \<open>'true'\<close>, \<open>'support weapon'\<close> and
  \<open>'expendable'\<close>. \<open>String.prototype.toLowerCase\<close> also lower-cases letters outside ASCII,
  but none of them to a letter of these three constants, so the comparisons agree. The
  group-partitioned sampler, whose bucket keys are arbitrary strings, does not use this
  function: it takes the platform's lower-casing as a parameter.
\<close>

definition toLowerChar :: "char \<Rightarrow> char" where
  "toLowerChar c =
     (case map_of (zip ''ABCDEFGHIJKLMNOPQRSTUVWXYZ'' ''abcdefghijklmnopqrstuvwxyz'') c of
        None \<Rightarrow> c
      | Some l \<Rightarrow> l)"

definition toLowerCase :: "string \<Rightarrow> string" where
  "toLowerCase s = map toLowerChar s"

section \<open>The source of randomness\<close>

text \<open>
  \<open>Math.floor(Math.random() * n)\<close> for an array of length \<open>n > 0\<close> is some index below
  \<open>n\<close>. The random source is an arbitrary sequence \<open>rnd\<close> of numbers, read at a
  position \<open>p\<close> that every draw advances; the draw reduces the number read to an index
  below \<open>n\<close>. Every sequence of indices the program can draw comes from some \<open>rnd\<close>.
\<close>

definition randomIndex :: "(nat \<Rightarrow> nat) \<Rightarrow> nat \<Rightarrow> nat \<Rightarrow> nat" where
  "randomIndex rnd p n = rnd p mod n"

text \<open>\<open>arr.splice(idx, 1)\<close> leaves \<open>arr\<close> without its element at \<open>idx\<close>.\<close>

definition spliceOut :: "nat \<Rightarrow> 'a list \<Rightarrow> 'a list" where
  "spliceOut idx arr = take idx arr @ drop (Suc idx) arr"

section \<open>The constrained sampler\<close>

text \<open>
  \<open>satisfies\<close> is the local function of the sampler; its three filters are named here.
\<close>

definition MAX_TRIES :: nat where
  "MAX_TRIES = 200"

definition hasBackpack :: "item \<Rightarrow> bool" where
  "hasBackpack x = (toLowerCase (orEmpty (getProp x ''Has Backpack'')) = ''true'')"

definition isSupportWeapon :: "item \<Rightarrow> bool" where
  "isSupportWeapon x = (toLowerCase (orEmpty (getProp x ''Type'')) = ''support weapon'')"

definition notExpendable :: "item \<Rightarrow> bool" where
  "notExpendable x = (toLowerCase (orEmpty (getProp x ''Subtype'')) \<noteq> ''expendable'')"

definition satisfies :: "item list \<Rightarrow> bool" where
  "satisfies items =
     (let backpackCount = length (filter hasBackpack items) in
      if backpackCount > 1 then False
      else
        let support = filter isSupportWeapon items;
            nonExpendableSupport = filter notExpendable support
        in if length nonExpendableSupport > 1 then False else True)"

text \<open>
  The inner loop of one attempt, \<open>for (let i = 0; i < count; i++)\<close> with \<open>n\<close> iterations
  left: a draw without replacement from \<open>temp\<close>, pushed on \<open>pick\<close>; the loop breaks when
  \<open>temp\<close> is empty.
\<close>

fun uniqueSample :: "(nat \<Rightarrow> nat) \<Rightarrow> nat \<Rightarrow> item list \<Rightarrow> item list \<Rightarrow> nat \<Rightarrow> item list \<times> nat" where
  "uniqueSample rnd p temp pick 0 = (pick, p)"
| "uniqueSample rnd p temp pick (Suc n) =
     (if temp = [] then (pick, p)
      else
        let idx = randomIndex rnd p (length temp)
        in uniqueSample rnd (Suc p) (spliceOut idx temp) (pick @ [temp ! idx]) n)"

text \<open>
  The retry loop, \<open>for (let attempt = 0; attempt < MAX_TRIES; attempt++)\<close> with \<open>k\<close>
  attempts left: each attempt samples from a fresh copy of the pool and is returned when
  \<open>pick.length === count && satisfies(pick)\<close>. \<open>None\<close> is the loop running out.
\<close>

fun retry :: "(nat \<Rightarrow> nat) \<Rightarrow> nat \<Rightarrow> item list \<Rightarrow> int \<Rightarrow> nat \<Rightarrow> item list option \<times> nat" where
  "retry rnd p pool cnt 0 = (None, p)"
| "retry rnd p pool cnt (Suc k) =
     (case uniqueSample rnd p pool [] (nat cnt) of
        (pick, p') \<Rightarrow>
          if int (length pick) = cnt \<and> satisfies pick then (Some pick, p')
          else retry rnd p' pool cnt k)"

text \<open>
  The greedy fallback loop, \<open>while (result.length < count && remaining.length)\<close>: a drawn
  candidate is pushed on \<open>result\<close> only if \<open>satisfies(trial)\<close>, and dropped otherwise; the
  \<open>break\<close> at the end of the body fires when the candidates have run out.
\<close>

function greedy :: "(nat \<Rightarrow> nat) \<Rightarrow> nat \<Rightarrow> int \<Rightarrow> item list \<Rightarrow> item list \<Rightarrow> item list \<times> nat" where
  "greedy rnd p cnt result remaining =
     (if int (length result) < cnt \<and> remaining \<noteq> [] then
        let idx = randomIndex rnd p (length remaining);
            cand = remaining ! idx;
            remaining' = spliceOut idx remaining;
            trial = result @ [cand];
            result' = (if satisfies trial then result @ [cand] else result)
        in if remaining' = [] \<and> int (length result') < cnt then (result', Suc p)
           else greedy rnd (Suc p) cnt result' remaining'
      else (result, p))"
  by pat_completeness auto
termination
proof -
  have shrink: "length (spliceOut (randomIndex rnd p (length xs)) xs) < length xs"
    if "xs \<noteq> []" for rnd p and xs :: "item list"
  proof -
    from that have "randomIndex rnd p (length xs) < length xs"
      by (simp add: randomIndex_def)
    then show ?thesis
      by (simp add: spliceOut_def)
  qed
  show ?thesis
    by (relation "measure (\<lambda>(rnd, p, cnt, result, remaining). length remaining)")
       (auto simp: shrink)
qed

text \<open>\<open>while (result.length < count) result.push(null)\<close>\<close>

definition padNulls :: "int \<Rightarrow> item list \<Rightarrow> slot list" where
  "padNulls cnt result = map Some result @ replicate (nat (cnt - int (length result))) None"

text \<open>
  The sampler takes the random source and the position of its next draw, and returns the
  selection with the position after its last draw.
\<close>

definition pickStratagemsWithConstraints ::
  "(nat \<Rightarrow> nat) \<Rightarrow> nat \<Rightarrow> item list \<Rightarrow> int \<Rightarrow> slot list \<times> nat" where
  "pickStratagemsWithConstraints rnd p source cnt =
     (let pool = source in
      if cnt \<le> 0 then ([], p)
      else
        case retry rnd p pool cnt MAX_TRIES of
          (Some pick, p') \<Rightarrow> (map Some pick, p')
        | (None, p') \<Rightarrow>
            (case greedy rnd p' cnt [] pool of
               (result, p'') \<Rightarrow> (padNulls cnt result, p'')))"

text \<open>The items in the non-empty slots of a selection, in slot order.\<close>

definition nonEmptySlots :: "slot list \<Rightarrow> item list" where
  "nonEmptySlots sel = map the (filter (\<lambda>s. s \<noteq> None) sel)"

text \<open>The number of empty markers in a selection.\<close>

definition emptyCount :: "slot list \<Rightarrow> nat" where
  "emptyCount sel = length (filter (\<lambda>s. s = None) sel)"

section \<open>The group-partitioned sampler\<close>

text \<open>
  The \<open>groupByField\<close> branch of \<open>spin\<close>; the branch of \<open>seed\<close> runs the same
  statements with \<open>forEach\<close> for the slot loop. \<open>buckets\<close> is a JavaScript \<open>Map\<close>, which
  keeps its keys in insertion order: an association list with distinct keys.

  The bucket key of an item is \<open>(item[field] || '').toLowerCase()\<close>, for values of the field
  that are arbitrary strings. \<open>String.prototype.toLowerCase\<close> is a function of the platform
  (it lower-cases by the Unicode tables, not only \<open>A..Z\<close>); it is the parameter \<open>lower\<close> of
  the sampler, and what is proved holds for every such function.
\<close>

type_synonym buckets = "(string \<times> item list) list"

text \<open>
  \<open>if (!buckets.has(key)) buckets.set(key, []); buckets.get(key).push(item)\<close>
\<close>

definition bucketsPush :: "string \<Rightarrow> item \<Rightarrow> buckets \<Rightarrow> buckets" where
  "bucketsPush key x b =
     (let b' = (if map_of b key = None then b @ [(key, [])] else b)
      in map (\<lambda>(k, arr). if k = key then (k, arr @ [x]) else (k, arr)) b')"

text \<open>
  \<open>source.forEach\<close>: an item whose key is empty is skipped (\<open>if (!key) return\<close>).
\<close>

definition buildBuckets :: "(string \<Rightarrow> string) \<Rightarrow> string \<Rightarrow> item list \<Rightarrow> buckets" where
  "buildBuckets lower field source =
     foldl (\<lambda>b x. let key = lower (orEmpty (getProp x field))
                  in if key = [] then b else bucketsPush key x b)
       [] source"

text \<open>
  The slot loop, \<open>for (let i = 0; i < cfgs.length; i++)\<close> with \<open>n\<close> slots left to fill:
  a key is spliced out of \<open>keys\<close> and an item is drawn from its bucket; a slot is \<open>null\<close>
  when the keys have run out (or the bucket is empty). \<open>buckets.get(k) || []\<close> is the
  lookup with \<open>undefined\<close> replaced by the empty array.
\<close>

fun groupLoop ::
  "(nat \<Rightarrow> nat) \<Rightarrow> nat \<Rightarrow> buckets \<Rightarrow> string list \<Rightarrow> slot list \<Rightarrow> nat \<Rightarrow> slot list \<times> nat" where
  "groupLoop rnd p b keys picks 0 = (picks, p)"
| "groupLoop rnd p b keys picks (Suc n) =
     (if keys = [] then groupLoop rnd p b keys (picks @ [None]) n
      else
        let kIdx = randomIndex rnd p (length keys);
            k = keys ! kIdx;
            keys' = spliceOut kIdx keys;
            arr = (case map_of b k of None \<Rightarrow> [] | Some a \<Rightarrow> a)
        in if arr = [] then groupLoop rnd (Suc p) b keys' (picks @ [None]) n
           else groupLoop rnd (Suc (Suc p)) b keys'
                  (picks @ [Some (arr ! randomIndex rnd (Suc p) (length arr))]) n)"

definition groupByPicks ::
  "(string \<Rightarrow> string) \<Rightarrow> (nat \<Rightarrow> nat) \<Rightarrow> nat \<Rightarrow> item list \<Rightarrow> string \<Rightarrow> nat
     \<Rightarrow> slot list \<times> nat" where
  "groupByPicks lower rnd p source field n =
     (let b = buildBuckets lower field source;
          keys = map fst b
      in groupLoop rnd p b keys [] n)"

text \<open>
  The lowercase value of the grouping field of an item: the key that the properties of the
  sampler speak of. It is stated on its own, not taken from \<open>buildBuckets\<close>.
\<close>

definition bucketKey :: "(string \<Rightarrow> string) \<Rightarrow> string \<Rightarrow> item \<Rightarrow> string" where
  "bucketKey lower field x = lower (orEmpty (getProp x field))"

text \<open>
  The invariant of \<open>buckets\<close>: keys are distinct and non-empty, no bucket is empty, and
  every item sits in the bucket of its own key.
\<close>

definition wellBucketed :: "(string \<Rightarrow> string) \<Rightarrow> string \<Rightarrow> buckets \<Rightarrow> bool" where
  "wellBucketed lower field b \<longleftrightarrow>
     distinct (map fst b)
     \<and> (\<forall>(k, arr) \<in> set b. k \<noteq> [] \<and> arr \<noteq> [] \<and> (\<forall>x \<in> set arr. bucketKey lower field x = k))"

section \<open>Concrete inputs\<close>

text \<open>A random source whose every draw selects index 0.\<close>

definition zeroDraws :: "nat \<Rightarrow> nat" where
  "zeroDraws i = 0"

text \<open>Two backpack items and one item without a backpack; none is a support weapon.\<close>

definition itemA :: item where
  "itemA = [(''Name'', ''A''), (''Has Backpack'', ''True'')]"

definition itemB :: item where
  "itemB = [(''Name'', ''B''), (''Has Backpack'', ''TRUE'')]"

definition itemC :: item where
  "itemC = [(''Name'', ''C''), (''Has Backpack'', ''False'')]"

text \<open>An expendable support weapon without a \<open>Has Backpack\<close> column.\<close>

definition itemS :: item where
  "itemS = [(''Name'', ''S''), (''Type'', ''Support Weapon''), (''Subtype'', ''Expendable'')]"

text \<open>Two items whose \<open>Subtype\<close> differs in case only.\<close>

definition itemE1 :: item where
  "itemE1 = [(''Name'', ''E1''), (''Subtype'', ''Eagle'')]"

definition itemE2 :: item where
  "itemE2 = [(''Name'', ''E2''), (''Subtype'', ''eagle'')]"

section \<open>Properties of the constrained sampler\<close>

declare greedy.simps [simp del]

lemma randomIndex_less: "0 < n \<Longrightarrow> randomIndex rnd p n < n"
  by (simp add: randomIndex_def)

lemma mset_spliceOut: "i < length xs \<Longrightarrow> add_mset (xs ! i) (mset (spliceOut i xs)) = mset xs"
proof -
  assume "i < length xs"
  then have "xs = take i xs @ xs ! i # drop (Suc i) xs"
    by (rule id_take_nth_drop)
  then have "mset xs = mset (take i xs @ xs ! i # drop (Suc i) xs)"
    by simp
  then show ?thesis
    by (simp add: spliceOut_def)
qed

lemma length_spliceOut: "i < length xs \<Longrightarrow> Suc (length (spliceOut i xs)) = length xs"
  by (simp add: spliceOut_def)

lemma uniqueSample_mset:
  "mset (fst (uniqueSample rnd p temp pick n)) \<subseteq># mset pick + mset temp"
proof (induction n arbitrary: p temp pick)
  case 0
  show ?case by simp
next
  case (Suc n)
  show ?case
  proof (cases "temp = []")
    case True
    then show ?thesis by simp
  next
    case False
    let ?i = "randomIndex rnd p (length temp)"
    from False have i: "?i < length temp"
      by (simp add: randomIndex_less)
    have "mset (fst (uniqueSample rnd (Suc p) (spliceOut ?i temp) (pick @ [temp ! ?i]) n))
            \<subseteq># mset (pick @ [temp ! ?i]) + mset (spliceOut ?i temp)"
      by (rule Suc.IH)
    also have "\<dots> = mset pick + mset temp"
      using mset_spliceOut [OF i] by simp
    finally show ?thesis
      using False by (simp add: Let_def)
  qed
qed

lemma uniqueSample_length:
  "length (fst (uniqueSample rnd p temp pick n)) = length pick + min n (length temp)"
proof (induction n arbitrary: p temp pick)
  case 0
  show ?case by simp
next
  case (Suc n)
  show ?case
  proof (cases "temp = []")
    case True
    then show ?thesis by simp
  next
    case False
    let ?i = "randomIndex rnd p (length temp)"
    from False have i: "?i < length temp"
      by (simp add: randomIndex_less)
    show ?thesis
      using False length_spliceOut [OF i] by (simp add: Let_def Suc.IH)
  qed
qed

lemma retry_Some:
  "retry rnd p pool cnt k = (Some pick, p') \<Longrightarrow>
     satisfies pick \<and> int (length pick) = cnt \<and> mset pick \<subseteq># mset pool"
proof (induction k arbitrary: p)
  case 0
  then show ?case by simp
next
  case (Suc k)
  obtain pk q where u: "uniqueSample rnd p pool [] (nat cnt) = (pk, q)"
    by (cases "uniqueSample rnd p pool [] (nat cnt)")
  show ?case
  proof (cases "int (length pk) = cnt \<and> satisfies pk")
    case True
    with Suc.prems u have "pick = pk" by simp
    moreover have "mset pk \<subseteq># mset pool"
      using uniqueSample_mset [of rnd p pool "[]" "nat cnt"] u by simp
    ultimately show ?thesis using True by simp
  next
    case False
    with Suc.prems u have "retry rnd q pool cnt k = (Some pick, p')" by auto
    then show ?thesis by (rule Suc.IH)
  qed
qed

lemma greedy_stop:
  "\<not> (int (length result) < cnt \<and> remaining \<noteq> []) \<Longrightarrow>
     greedy rnd p cnt result remaining = (result, p)"
  by (subst greedy.simps) auto

lemma greedy_step:
  assumes "int (length result) < cnt" and "remaining \<noteq> []"
  shows "greedy rnd p cnt result remaining =
           greedy rnd (Suc p) cnt
             (if satisfies (result @ [remaining ! randomIndex rnd p (length remaining)])
              then result @ [remaining ! randomIndex rnd p (length remaining)] else result)
             (spliceOut (randomIndex rnd p (length remaining)) remaining)"
  using assms by (subst greedy.simps) (auto simp: Let_def greedy_stop)

lemma greedy_satisfies:
  "satisfies result \<Longrightarrow> satisfies (fst (greedy rnd p cnt result remaining))"
proof (induction "length remaining" arbitrary: p result remaining)
  case 0
  then show ?case by (simp add: greedy_stop)
next
  case (Suc m)
  show ?case
  proof (cases "int (length result) < cnt")
    case False
    then show ?thesis using Suc.prems by (simp add: greedy_stop)
  next
    case True
    from Suc.hyps(2) have ne: "remaining \<noteq> []" by auto
    let ?i = "randomIndex rnd p (length remaining)"
    from ne have "?i < length remaining" by (simp add: randomIndex_less)
    then have len: "m = length (spliceOut ?i remaining)"
      using length_spliceOut [of ?i remaining] Suc.hyps(2) by simp
    show ?thesis
      using Suc.prems by (simp add: greedy_step [OF True ne] Suc.hyps(1) [OF len])
  qed
qed

lemma greedy_mset:
  "mset (fst (greedy rnd p cnt result remaining)) \<subseteq># mset result + mset remaining"
proof (induction "length remaining" arbitrary: p result remaining)
  case 0
  then show ?case by (simp add: greedy_stop)
next
  case (Suc m)
  show ?case
  proof (cases "int (length result) < cnt")
    case False
    then show ?thesis by (simp add: greedy_stop)
  next
    case True
    from Suc.hyps(2) have ne: "remaining \<noteq> []" by auto
    let ?i = "randomIndex rnd p (length remaining)"
    let ?r = "if satisfies (result @ [remaining ! ?i]) then result @ [remaining ! ?i] else result"
    from ne have i: "?i < length remaining" by (simp add: randomIndex_less)
    then have len: "m = length (spliceOut ?i remaining)"
      using length_spliceOut [of ?i remaining] Suc.hyps(2) by simp
    have "mset (fst (greedy rnd (Suc p) cnt ?r (spliceOut ?i remaining)))
            \<subseteq># mset ?r + mset (spliceOut ?i remaining)"
      by (rule Suc.hyps(1) [OF len])
    also have "\<dots> \<subseteq># mset (result @ [remaining ! ?i]) + mset (spliceOut ?i remaining)"
      by simp
    also have "\<dots> = mset result + mset remaining"
      using mset_spliceOut [OF i] by simp
    finally show ?thesis
      by (simp add: greedy_step [OF True ne])
  qed
qed

lemma greedy_length:
  "int (length result) \<le> cnt \<Longrightarrow> int (length (fst (greedy rnd p cnt result remaining))) \<le> cnt"
proof (induction "length remaining" arbitrary: p result remaining)
  case 0
  then show ?case by (simp add: greedy_stop)
next
  case (Suc m)
  show ?case
  proof (cases "int (length result) < cnt")
    case False
    then show ?thesis using Suc.prems by (simp add: greedy_stop)
  next
    case True
    from Suc.hyps(2) have ne: "remaining \<noteq> []" by auto
    let ?i = "randomIndex rnd p (length remaining)"
    from ne have "?i < length remaining" by (simp add: randomIndex_less)
    then have len: "m = length (spliceOut ?i remaining)"
      using length_spliceOut [of ?i remaining] Suc.hyps(2) by simp
    show ?thesis
      using True by (simp add: greedy_step [OF True ne] Suc.hyps(1) [OF len])
  qed
qed

lemma nonEmptySlots_map_Some: "nonEmptySlots (map Some xs) = xs"
  by (induction xs) (simp_all add: nonEmptySlots_def)

lemma nonEmptySlots_padNulls: "nonEmptySlots (padNulls cnt xs) = xs"
  using nonEmptySlots_map_Some [of xs] by (simp add: padNulls_def nonEmptySlots_def)

lemma length_padNulls: "int (length xs) \<le> cnt \<Longrightarrow> int (length (padNulls cnt xs)) = cnt"
  by (simp add: padNulls_def)

lemma satisfies_Nil: "satisfies []"
  by (simp add: satisfies_def)

text \<open>The sampler's result, by the path that produced it.\<close>

lemma sampler_cases:
  assumes "0 < cnt"
  obtains (retry) pick p' where "retry rnd p pool cnt MAX_TRIES = (Some pick, p')"
      and "pickStratagemsWithConstraints rnd p pool cnt = (map Some pick, p')"
  | (fallback) p' where "retry rnd p pool cnt MAX_TRIES = (None, p')"
      and "pickStratagemsWithConstraints rnd p pool cnt
             = (padNulls cnt (fst (greedy rnd p' cnt [] pool)), snd (greedy rnd p' cnt [] pool))"
proof (cases "retry rnd p pool cnt MAX_TRIES")
  case (Pair r p')
  show ?thesis
  proof (cases r)
    case None
    with Pair assms show ?thesis
      by (intro fallback [of p']) (simp_all add: pickStratagemsWithConstraints_def split: prod.split)
  next
    case (Some pick)
    with Pair assms show ?thesis
      by (intro retry [of pick p']) (simp_all add: pickStratagemsWithConstraints_def)
  qed
qed

lemma sampler_nonpositive: "cnt \<le> 0 \<Longrightarrow> pickStratagemsWithConstraints rnd p pool cnt = ([], p)"
  by (simp add: pickStratagemsWithConstraints_def)

lemma sampler_satisfies:
  "satisfies (nonEmptySlots (fst (pickStratagemsWithConstraints rnd p pool cnt)))"
proof (cases "0 < cnt")
  case False
  then show ?thesis
    by (simp add: sampler_nonpositive nonEmptySlots_def satisfies_Nil)
next
  case True
  then show ?thesis
  proof (cases rule: sampler_cases [of cnt rnd p pool])
    case (retry pick p')
    then show ?thesis
      using retry_Some [of rnd p pool cnt MAX_TRIES pick p'] by (simp add: nonEmptySlots_map_Some)
  next
    case (fallback p')
    then show ?thesis
      using greedy_satisfies [OF satisfies_Nil] by (simp add: nonEmptySlots_padNulls)
  qed
qed

lemma sampler_mset:
  "mset (nonEmptySlots (fst (pickStratagemsWithConstraints rnd p pool cnt))) \<subseteq># mset pool"
proof (cases "0 < cnt")
  case False
  then show ?thesis
    by (simp add: sampler_nonpositive nonEmptySlots_def)
next
  case True
  then show ?thesis
  proof (cases rule: sampler_cases [of cnt rnd p pool])
    case (retry pick p')
    then show ?thesis
      using retry_Some [of rnd p pool cnt MAX_TRIES pick p'] by (simp add: nonEmptySlots_map_Some)
  next
    case (fallback p')
    then show ?thesis
      using greedy_mset [of rnd p' cnt "[]" pool] by (simp add: nonEmptySlots_padNulls)
  qed
qed

lemma sampler_length:
  "int (length (fst (pickStratagemsWithConstraints rnd p pool cnt))) = max 0 cnt"
proof (cases "0 < cnt")
  case False
  then show ?thesis
    by (simp add: sampler_nonpositive)
next
  case True
  then show ?thesis
  proof (cases rule: sampler_cases [of cnt rnd p pool])
    case (retry pick p')
    then show ?thesis
      using retry_Some [of rnd p pool cnt MAX_TRIES pick p'] True by simp
  next
    case (fallback p')
    have "int (length (fst (greedy rnd p' cnt [] pool))) \<le> cnt"
      using True by (intro greedy_length) simp
    then show ?thesis
      using fallback True by (simp add: length_padNulls)
  qed
qed

lemma submultiset_positions:
  "mset ys \<subseteq># mset xs \<Longrightarrow>
     \<exists>js. distinct js \<and> set js \<subseteq> {..<length xs} \<and> ys = map ((!) xs) js"
proof (induction xs arbitrary: ys)
  case Nil
  then show ?case by simp
next
  case (Cons x xs)
  show ?case
  proof (cases "x \<in> set ys")
    case False
    have "count (mset ys) a \<le> count (mset xs) a" for a
    proof (cases "a = x")
      case True
      from False have z: "count (mset ys) x = 0"
        by (simp add: count_eq_zero_iff)
      show ?thesis
        unfolding True z by (rule le0)
    next
      case False
      then show ?thesis
        using mset_subset_eq_count [OF Cons.prems, of a] by simp
    qed
    then have "mset ys \<subseteq># mset xs"
      by (simp add: subseteq_mset_def)
    then obtain js where js: "distinct js" "set js \<subseteq> {..<length xs}" "ys = map ((!) xs) js"
      using Cons.IH by blast
    have "distinct (map Suc js)"
      using js(1) by (simp add: distinct_map)
    moreover have "set (map Suc js) \<subseteq> {..<length (x # xs)}"
      using js(2) by auto
    moreover have "ys = map ((!) (x # xs)) (map Suc js)"
      using js(3) by simp
    ultimately show ?thesis by blast
  next
    case True
    then obtain as bs where ys: "ys = as @ x # bs"
      by (auto simp: in_set_conv_decomp)
    with Cons.prems have "mset (as @ bs) \<subseteq># mset xs"
      by simp
    then obtain js where js: "distinct js" "set js \<subseteq> {..<length xs}" "as @ bs = map ((!) xs) js"
      using Cons.IH by blast
    define js1 where "js1 = take (length as) js"
    define js2 where "js2 = drop (length as) js"
    have split: "js = js1 @ js2"
      by (simp add: js1_def js2_def)
    have "length js = length as + length bs"
      using arg_cong [OF js(3), of length] by simp
    then have l1: "length js1 = length as"
      by (simp add: js1_def)
    have as: "as = map ((!) xs) js1" and bs: "bs = map ((!) xs) js2"
      using js(3) l1 unfolding split by (simp_all add: append_eq_append_conv)
    let ?js = "map Suc js1 @ 0 # map Suc js2"
    have "distinct ?js"
      using js(1) unfolding split by (auto simp: distinct_map)
    moreover have "set ?js \<subseteq> {..<length (x # xs)}"
      using js(2) unfolding split by auto
    moreover have "ys = map ((!) (x # xs)) ?js"
      using as bs ys by simp
    ultimately show ?thesis by blast
  qed
qed

lemmas item_eval = getProp_def orEmpty_def toLowerCase_def toLowerChar_def
  hasBackpack_def isSupportWeapon_def notExpendable_def

lemma itemA_facts: "hasBackpack itemA" "\<not> isSupportWeapon itemA"
  by (simp_all add: itemA_def item_eval)

lemma itemB_facts: "hasBackpack itemB" "\<not> isSupportWeapon itemB"
  by (simp_all add: itemB_def item_eval)

lemma itemC_facts: "\<not> hasBackpack itemC" "\<not> isSupportWeapon itemC"
  by (simp_all add: itemC_def item_eval)

lemma filter_length_mono:
  assumes "mset ys \<subseteq># mset xs"
  shows "length (filter P ys) \<le> length (filter P xs)"
proof -
  from assms have "filter_mset P (mset ys) \<subseteq># filter_mset P (mset xs)"
    by (rule multiset_filter_mono)
  then have "size (filter_mset P (mset ys)) \<le> size (filter_mset P (mset xs))"
    by (rule size_mset_mono)
  then show ?thesis
    by (metis mset_filter size_mset)
qed

lemma satisfies_iff:
  "satisfies items \<longleftrightarrow>
     length (filter hasBackpack items) \<le> 1
     \<and> length (filter notExpendable (filter isSupportWeapon items)) \<le> 1"
  by (auto simp: satisfies_def Let_def)

lemma satisfies_mono:
  assumes "mset ys \<subseteq># mset xs" and "satisfies xs"
  shows "satisfies ys"
proof -
  have "length (filter hasBackpack ys) \<le> length (filter hasBackpack xs)"
    using assms(1) by (rule filter_length_mono)
  moreover have "mset (filter isSupportWeapon ys) \<subseteq># mset (filter isSupportWeapon xs)"
    using assms(1) by (simp add: multiset_filter_mono)
  then have "length (filter notExpendable (filter isSupportWeapon ys))
           \<le> length (filter notExpendable (filter isSupportWeapon xs))"
    by (rule filter_length_mono)
  ultimately show ?thesis
    using assms(2) unfolding satisfies_iff by linarith
qed

lemma MAX_TRIES_Suc: "MAX_TRIES = Suc 199"
  by (simp add: MAX_TRIES_def)

lemma retry_first:
  assumes "satisfies pool" and "0 < cnt" and "cnt \<le> int (length pool)"
  shows "retry rnd p pool cnt (Suc k) =
           (Some (fst (uniqueSample rnd p pool [] (nat cnt))),
            snd (uniqueSample rnd p pool [] (nat cnt)))"
proof -
  let ?pick = "fst (uniqueSample rnd p pool [] (nat cnt))"
  have "length ?pick = min (nat cnt) (length pool)"
    by (simp add: uniqueSample_length)
  with assms(2,3) have len: "int (length ?pick) = cnt"
    by simp
  have "mset ?pick \<subseteq># mset pool"
    using uniqueSample_mset [of rnd p pool "[]" "nat cnt"] by simp
  then have "satisfies ?pick"
    using assms(1) by (rule satisfies_mono)
  with len show ?thesis
    by (simp add: case_prod_unfold)
qed

lemma retry_too_few:
  "int (length pool) < cnt \<Longrightarrow> fst (retry rnd p pool cnt k) = None"
proof (induction k arbitrary: p)
  case 0
  show ?case by simp
next
  case (Suc k)
  have "length (fst (uniqueSample rnd p pool [] (nat cnt))) = min (nat cnt) (length pool)"
    by (simp add: uniqueSample_length)
  with Suc.prems have "int (length (fst (uniqueSample rnd p pool [] (nat cnt)))) \<noteq> cnt"
    by simp
  then show ?case
    using Suc.IH [OF Suc.prems] by (simp add: case_prod_unfold)
qed

lemma sampler_fallback:
  assumes "0 < cnt" and "fst (retry rnd p pool cnt MAX_TRIES) = None"
  shows "fst (pickStratagemsWithConstraints rnd p pool cnt)
           = padNulls cnt (fst (greedy rnd (snd (retry rnd p pool cnt MAX_TRIES)) cnt [] pool))"
  using assms by (simp add: pickStratagemsWithConstraints_def case_prod_unfold)

lemma satisfies_mset_cong: "mset xs = mset ys \<Longrightarrow> satisfies xs = satisfies ys"
  using satisfies_mono [of xs ys] satisfies_mono [of ys xs] by auto

lemma greedy_all:
  assumes "satisfies (result @ remaining)"
    and "int (length result + length remaining) \<le> cnt"
  shows "mset (fst (greedy rnd p cnt result remaining)) = mset result + mset remaining"
  using assms
proof (induction "length remaining" arbitrary: p result remaining)
  case 0
  then show ?case by (simp add: greedy_stop)
next
  case (Suc m)
  from Suc.hyps(2) have ne: "remaining \<noteq> []" by auto
  with Suc.hyps(2) Suc.prems(2) have lt: "int (length result) < cnt" by simp
  let ?i = "randomIndex rnd p (length remaining)"
  from ne have i: "?i < length remaining" by (simp add: randomIndex_less)
  then have len: "m = length (spliceOut ?i remaining)"
    using length_spliceOut [of ?i remaining] Suc.hyps(2) by simp
  have whole: "mset ((result @ [remaining ! ?i]) @ spliceOut ?i remaining) = mset (result @ remaining)"
    using mset_spliceOut [OF i] by simp
  then have "mset (result @ [remaining ! ?i]) \<subseteq># mset (result @ remaining)"
    by (metis mset_append mset_subset_eq_add_left)
  then have ok: "satisfies (result @ [remaining ! ?i])"
    using Suc.prems(1) by (rule satisfies_mono)
  have sat': "satisfies ((result @ [remaining ! ?i]) @ spliceOut ?i remaining)"
    using satisfies_mset_cong [OF whole] Suc.prems(1) by simp
  have len': "int (length (result @ [remaining ! ?i]) + length (spliceOut ?i remaining)) \<le> cnt"
    using Suc.prems(2) Suc.hyps(2) len by simp
  have "mset (fst (greedy rnd (Suc p) cnt (result @ [remaining ! ?i]) (spliceOut ?i remaining)))
          = mset (result @ [remaining ! ?i]) + mset (spliceOut ?i remaining)"
    using len sat' len' by (rule Suc.hyps(1))
  then show ?case
    using whole ok by (simp add: greedy_step [OF lt ne])
qed

lemma count_slots: "emptyCount sel + length (nonEmptySlots sel) = length sel"
  by (induction sel) (simp_all add: emptyCount_def nonEmptySlots_def)

lemma all_non_empty_satisfies:
  assumes "length (nonEmptySlots (fst (pickStratagemsWithConstraints rnd p pool cnt))) = length pool"
  shows "satisfies pool"
proof -
  let ?r = "nonEmptySlots (fst (pickStratagemsWithConstraints rnd p pool cnt))"
  have sub: "mset ?r \<subseteq># mset pool"
    by (rule sampler_mset)
  moreover from assms have "size (mset ?r) = size (mset pool)"
    by simp
  ultimately have "mset ?r = mset pool"
    using mset_subset_size [of "mset ?r" "mset pool"] by (auto simp: subset_mset_def)
  then show ?thesis
    using satisfies_mset_cong [of ?r pool] sampler_satisfies [of rnd p pool cnt] by simp
qed

lemma zero_index: "randomIndex zeroDraws p n = 0"
  by (simp add: randomIndex_def zeroDraws_def)

lemma greedy_two_backpacks: "fst (greedy zeroDraws q 3 [] [itemA, itemB]) = [itemA]"
  by (simp add: greedy_step greedy_stop zero_index spliceOut_def satisfies_iff
      itemA_facts itemB_facts)

lemma randomIndex_one: "randomIndex rnd p (Suc 0) = 0"
  by (simp add: randomIndex_def)

lemma randomIndex_two: "randomIndex rnd p (Suc (Suc 0)) = 0 \<or> randomIndex rnd p (Suc (Suc 0)) = Suc 0"
  using randomIndex_less [of "Suc (Suc 0)" rnd p] by auto

lemma randomIndex_three:
  "randomIndex rnd p (Suc (Suc (Suc 0))) = 0 \<or> randomIndex rnd p (Suc (Suc (Suc 0))) = Suc 0
   \<or> randomIndex rnd p (Suc (Suc (Suc 0))) = Suc (Suc 0)"
  using randomIndex_less [of "Suc (Suc (Suc 0))" rnd p] by auto

lemma greedy_one:
  assumes "int (length result) < cnt"
  shows "fst (greedy rnd q cnt result [x])
           = (if satisfies (result @ [x]) then result @ [x] else result)"
proof -
  have "greedy rnd q cnt result [x]
          = greedy rnd (Suc q) cnt (if satisfies (result @ [x]) then result @ [x] else result) []"
    using greedy_step [OF assms, of "[x]" rnd q] by (simp add: randomIndex_one spliceOut_def)
  then show ?thesis
    by (simp add: greedy_stop)
qed

lemma greedy_two:
  assumes "int (length result) < cnt"
  shows "fst (greedy rnd q cnt result [x, y])
           = fst (greedy rnd (Suc q) cnt (if satisfies (result @ [x]) then result @ [x] else result) [y])
       \<or> fst (greedy rnd q cnt result [x, y])
           = fst (greedy rnd (Suc q) cnt (if satisfies (result @ [y]) then result @ [y] else result) [x])"
proof -
  note step = greedy_step [OF assms, of "[x, y]" rnd q]
  from randomIndex_two [of rnd q] show ?thesis
  proof
    assume "randomIndex rnd q (Suc (Suc 0)) = 0"
    with step show ?thesis by (simp add: spliceOut_def)
  next
    assume "randomIndex rnd q (Suc (Suc 0)) = Suc 0"
    with step show ?thesis by (simp add: spliceOut_def)
  qed
qed

lemma greedy_three:
  assumes "int (length result) < cnt"
  shows "fst (greedy rnd q cnt result [x, y, z])
           = fst (greedy rnd (Suc q) cnt (if satisfies (result @ [x]) then result @ [x] else result) [y, z])
       \<or> fst (greedy rnd q cnt result [x, y, z])
           = fst (greedy rnd (Suc q) cnt (if satisfies (result @ [y]) then result @ [y] else result) [x, z])
       \<or> fst (greedy rnd q cnt result [x, y, z])
           = fst (greedy rnd (Suc q) cnt (if satisfies (result @ [z]) then result @ [z] else result) [x, y])"
proof -
  note step = greedy_step [OF assms, of "[x, y, z]" rnd q]
  from randomIndex_three [of rnd q] show ?thesis
  proof (elim disjE)
    assume "randomIndex rnd q (Suc (Suc (Suc 0))) = 0"
    with step show ?thesis by (simp add: spliceOut_def)
  next
    assume "randomIndex rnd q (Suc (Suc (Suc 0))) = Suc 0"
    with step show ?thesis by (simp add: spliceOut_def)
  next
    assume "randomIndex rnd q (Suc (Suc (Suc 0))) = Suc (Suc 0)"
    with step show ?thesis by (simp add: spliceOut_def)
  qed
qed

lemma two_of_three:
  assumes "distinct js" and "set js \<subseteq> {..<length [x, y, z]}" and "length js = 2"
  shows "map ((!) [x, y, z]) js \<in> {[x, y], [y, x], [x, z], [z, x], [y, z], [z, y]}"
proof -
  from assms(3) obtain i j where js: "js = [i, j]"
    by (auto simp: eval_nat_numeral length_Suc_conv)
  have three: "k = 0 \<or> k = Suc 0 \<or> k = Suc (Suc 0)" if "k < Suc (Suc (Suc 0))" for k :: nat
    using that by (auto simp: less_Suc_eq)
  from js assms(1,2) have ij: "i \<noteq> j" "i < Suc (Suc (Suc 0))" "j < Suc (Suc (Suc 0))"
    by simp_all
  from three [OF ij(2)] three [OF ij(3)] ij(1) show ?thesis
    unfolding js by (elim disjE) simp_all
qed

section \<open>Properties of the group-partitioned sampler\<close>

lemma spliceOut_distinct:
  assumes "i < length xs" and "distinct xs"
  shows "distinct (spliceOut i xs)" and "xs ! i \<notin> set (spliceOut i xs)"
    and "set (spliceOut i xs) \<subseteq> set xs"
proof -
  have m: "mset (xs ! i # spliceOut i xs) = mset xs"
    using mset_spliceOut [OF assms(1)] by simp
  then have "distinct (xs ! i # spliceOut i xs)"
    using assms(2) mset_eq_imp_distinct_iff by blast
  then show "distinct (spliceOut i xs)" and "xs ! i \<notin> set (spliceOut i xs)"
    by simp_all
  from m have "set (xs ! i # spliceOut i xs) = set xs"
    by (rule mset_eq_setD)
  then show "set (spliceOut i xs) \<subseteq> set xs"
    by auto
qed

lemma map_fst_bucketsPush:
  "map fst (bucketsPush key x b) = (if key \<in> fst ` set b then map fst b else map fst b @ [key])"
proof -
  have "map fst (map (\<lambda>(k, arr). if k = key then (k, arr @ [x]) else (k, arr)) c) = map fst c"
    for c :: buckets
    by (induction c) auto
  then show ?thesis
    by (simp add: bucketsPush_def Let_def map_of_eq_None_iff)
qed

lemma set_bucketsPush:
  assumes "(k, arr) \<in> set (bucketsPush key x b)"
  shows "(k \<noteq> key \<and> (k, arr) \<in> set b)
       \<or> (k = key \<and> (\<exists>old. arr = old @ [x] \<and> ((key, old) \<in> set b \<or> old = [])))"
  using assms by (auto simp: bucketsPush_def Let_def split: if_splits)

lemma wellBucketed_push:
  assumes "wellBucketed lower field b" and "key \<noteq> []" and "bucketKey lower field x = key"
  shows "wellBucketed lower field (bucketsPush key x b)"
proof -
  have "distinct (map fst (bucketsPush key x b))"
    using assms(1) by (auto simp: map_fst_bucketsPush wellBucketed_def)
  moreover have "k \<noteq> [] \<and> arr \<noteq> [] \<and> (\<forall>y \<in> set arr. bucketKey lower field y = k)"
    if "(k, arr) \<in> set (bucketsPush key x b)" for k arr
    using set_bucketsPush [OF that] assms by (fastforce simp: wellBucketed_def)
  ultimately show ?thesis
    by (auto simp: wellBucketed_def)
qed

lemma foldl_buckets:
  assumes "wellBucketed lower field b"
  shows "wellBucketed lower field
           (foldl (\<lambda>b x. let key = lower (orEmpty (getProp x field))
                        in if key = [] then b else bucketsPush key x b)
              b source)
       \<and> set (map fst
           (foldl (\<lambda>b x. let key = lower (orEmpty (getProp x field))
                        in if key = [] then b else bucketsPush key x b)
              b source))
         = set (map fst b) \<union> (bucketKey lower field ` set source - {[]})"
  using assms
proof (induction source arbitrary: b)
  case Nil
  then show ?case by simp
next
  case (Cons x source)
  show ?case
  proof (cases "lower (orEmpty (getProp x field)) = []")
    case True
    then show ?thesis
      using Cons.IH [OF Cons.prems] by (simp add: Let_def bucketKey_def)
  next
    case False
    have "wellBucketed lower field (bucketsPush (lower (orEmpty (getProp x field))) x b)"
      using Cons.prems False by (intro wellBucketed_push) (simp_all add: bucketKey_def)
    from Cons.IH [OF this] False show ?thesis
      by (auto simp: Let_def map_fst_bucketsPush bucketKey_def)
  qed
qed

lemma wellBucketed_buildBuckets: "wellBucketed lower field (buildBuckets lower field source)"
  using foldl_buckets [of lower field "[]" source] by (simp add: buildBuckets_def wellBucketed_def)

lemma keys_buildBuckets:
  "set (map fst (buildBuckets lower field source)) = bucketKey lower field ` set source - {[]}"
  using foldl_buckets [of lower field "[]" source] by (simp add: buildBuckets_def wellBucketed_def)

lemma nonEmptySlots_snoc:
  "nonEmptySlots (picks @ [None]) = nonEmptySlots picks"
  "nonEmptySlots (picks @ [Some x]) = nonEmptySlots picks @ [x]"
  by (simp_all add: nonEmptySlots_def)

lemma bucket_lookup:
  assumes "wellBucketed lower field b" and "k \<in> fst ` set b"
  obtains arr where "map_of b k = Some arr" and "arr \<noteq> []" and "k \<noteq> []"
    and "\<forall>x \<in> set arr. bucketKey lower field x = k"
proof -
  from assms(2) obtain arr where m: "map_of b k = Some arr"
    by (metis map_of_eq_None_iff not_Some_eq)
  then have "(k, arr) \<in> set b"
    by (rule map_of_SomeD)
  with assms(1) have "arr \<noteq> []" "k \<noteq> []" "\<forall>x \<in> set arr. bucketKey lower field x = k"
    by (auto simp: wellBucketed_def)
  with m show ?thesis
    by (rule that)
qed

lemma groupLoop_keys:
  assumes "wellBucketed lower field b" and "distinct keys" and "set keys \<subseteq> fst ` set b"
    and "distinct (map (bucketKey lower field) (nonEmptySlots picks))"
    and "bucketKey lower field ` set (nonEmptySlots picks) \<inter> set keys = {}"
    and "[] \<notin> bucketKey lower field ` set (nonEmptySlots picks)"
  shows "distinct (map (bucketKey lower field) (nonEmptySlots (fst (groupLoop rnd p b keys picks n))))
       \<and> [] \<notin> bucketKey lower field ` set (nonEmptySlots (fst (groupLoop rnd p b keys picks n)))"
  using assms(2-)
proof (induction n arbitrary: p keys picks)
  case 0
  then show ?case by simp
next
  case (Suc n)
  show ?case
  proof (cases "keys = []")
    case True
    have "distinct (map (bucketKey lower field) (nonEmptySlots (fst (groupLoop rnd p b keys (picks @ [None]) n))))
       \<and> [] \<notin> bucketKey lower field ` set (nonEmptySlots (fst (groupLoop rnd p b keys (picks @ [None]) n)))"
      using Suc.prems by (intro Suc.IH) (simp_all add: nonEmptySlots_snoc)
    with True show ?thesis by simp
  next
    case False
    define kIdx where "kIdx = randomIndex rnd p (length keys)"
    define k where "k = keys ! kIdx"
    define keys' where "keys' = spliceOut kIdx keys"
    from False have kIdx: "kIdx < length keys"
      by (simp add: kIdx_def randomIndex_less)
    then have k_in: "k \<in> set keys"
      by (simp add: k_def)
    have keys': "distinct keys'" "k \<notin> set keys'" "set keys' \<subseteq> set keys"
      using spliceOut_distinct [OF kIdx Suc.prems(1)] by (simp_all add: keys'_def k_def)
    from k_in Suc.prems(2) have "k \<in> fst ` set b"
      by auto
    with assms(1) obtain arr where arr: "map_of b k = Some arr" "arr \<noteq> []" "k \<noteq> []"
        "\<forall>x \<in> set arr. bucketKey lower field x = k"
      by (rule bucket_lookup)
    define x where "x = arr ! randomIndex rnd (Suc p) (length arr)"
    from arr(2) have "x \<in> set arr"
      by (simp add: x_def randomIndex_less)
    with arr(4) have key_x: "bucketKey lower field x = k"
      by simp
    have step: "groupLoop rnd p b keys picks (Suc n)
                  = groupLoop rnd (Suc (Suc p)) b keys' (picks @ [Some x]) n"
      using False arr(1,2) by (simp add: Let_def kIdx_def k_def keys'_def x_def)
    have "k \<notin> bucketKey lower field ` set (nonEmptySlots picks)"
      using Suc.prems(4) k_in by auto
    then have d: "distinct (map (bucketKey lower field) (nonEmptySlots (picks @ [Some x])))"
      using Suc.prems(3) key_x by (simp add: nonEmptySlots_snoc)
    have i: "bucketKey lower field ` set (nonEmptySlots (picks @ [Some x])) \<inter> set keys' = {}"
      using Suc.prems(4) keys'(2,3) key_x by (auto simp: nonEmptySlots_snoc)
    have e: "[] \<notin> bucketKey lower field ` set (nonEmptySlots (picks @ [Some x]))"
      using Suc.prems(5) key_x arr(3) by (auto simp: nonEmptySlots_snoc)
    have s: "set keys' \<subseteq> fst ` set b"
      using keys'(3) Suc.prems(2) by blast
    show ?thesis
      unfolding step using keys'(1) s d i e by (rule Suc.IH)
  qed
qed

lemma groupLoop_length: "length (fst (groupLoop rnd p b keys picks n)) = length picks + n"
proof (induction n arbitrary: p keys picks)
  case 0
  show ?case by simp
next
  case (Suc n)
  show ?case
    by (simp add: Let_def Suc.IH)
qed

lemma groupLoop_filled:
  assumes "wellBucketed lower field b" and "set keys \<subseteq> fst ` set b" and "n \<le> length keys"
    and "None \<notin> set picks"
  shows "None \<notin> set (fst (groupLoop rnd p b keys picks n))"
  using assms(2-)
proof (induction n arbitrary: p keys picks)
  case 0
  then show ?case by simp
next
  case (Suc n)
  from Suc.prems(2) have ne: "keys \<noteq> []"
    by auto
  define kIdx where "kIdx = randomIndex rnd p (length keys)"
  define k where "k = keys ! kIdx"
  define keys' where "keys' = spliceOut kIdx keys"
  from ne have kIdx: "kIdx < length keys"
    by (simp add: kIdx_def randomIndex_less)
  then have "k \<in> set keys"
    by (simp add: k_def)
  with Suc.prems(1) have "k \<in> fst ` set b"
    by auto
  with assms(1) obtain arr where arr: "map_of b k = Some arr" "arr \<noteq> []"
    by (rule bucket_lookup)
  define x where "x = arr ! randomIndex rnd (Suc p) (length arr)"
  have step: "groupLoop rnd p b keys picks (Suc n)
                = groupLoop rnd (Suc (Suc p)) b keys' (picks @ [Some x]) n"
    using ne arr by (simp add: Let_def kIdx_def k_def keys'_def x_def)
  have "set keys' \<subseteq> set keys"
    using mset_spliceOut [OF kIdx] unfolding keys'_def
    by (metis mset_eq_setD set_subset_Cons mset.simps(2))
  with Suc.prems(1) have s: "set keys' \<subseteq> fst ` set b"
    by blast
  have l: "n \<le> length keys'"
    using length_spliceOut [OF kIdx] Suc.prems(2) by (simp add: keys'_def)
  have "None \<notin> set (picks @ [Some x])"
    using Suc.prems(3) by simp
  with s l show ?case
    unfolding step by (rule Suc.IH)
qed

lemma bucket_names:
  "bucketKey toLowerCase ''Name'' itemA = ''a''" "bucketKey toLowerCase ''Name'' itemB = ''b''" "bucketKey toLowerCase ''Name'' itemS = ''s''"
  by (simp_all add: bucketKey_def item_eval itemA_def itemB_def itemS_def)

text \<open>
  Lower-casing decides the buckets: \<open>Eagle\<close> and \<open>eagle\<close> are one bucket, so the second
  of two slots stays empty.
\<close>

lemma group_picks_case_fold:
  "fst (groupByPicks toLowerCase zeroDraws 0 [itemE1, itemE2] ''Subtype'' 2) = [Some itemE1, None]"
  by (simp add: groupByPicks_def buildBuckets_def bucketsPush_def Let_def item_eval
      itemE1_def itemE2_def eval_nat_numeral zero_index spliceOut_def)

section \<open>The claims\<close>

text \<open>
  C1: for every pool, count and sequence of random draws, at most one non-empty slot of
  the selection returned by the constrained sampler holds an item whose \<open>Has Backpack\<close>
  is "true" up to case, on the retry path and on the greedy fallback path.
\<close>

theorem sampler_at_most_one_backpack:
  "length (filter hasBackpack
     (nonEmptySlots (fst (pickStratagemsWithConstraints rnd p pool cnt)))) \<le> 1"
  using sampler_satisfies [of rnd p pool cnt]
  by (simp add: satisfies_def Let_def split: if_splits)

text \<open>
  C2: for every pool, count and sequence of random draws, among the non-empty slots of the
  returned selection whose \<open>Type\<close> is "support weapon" up to case, at most one has a
  \<open>Subtype\<close> other than "expendable"; expendable support weapons are not counted.
\<close>

theorem sampler_at_most_one_non_expendable_support:
  "length (filter notExpendable (filter isSupportWeapon
     (nonEmptySlots (fst (pickStratagemsWithConstraints rnd p pool cnt))))) \<le> 1"
  using sampler_satisfies [of rnd p pool cnt]
  by (simp add: satisfies_def Let_def split: if_splits)

text \<open>
  C3: for every pool, count and sequence of random draws, the non-empty slots of the
  returned selection hold the pool's entries at pairwise different positions of the pool:
  no source item occupies two slots, on the retry path and on the greedy fallback path.
\<close>

theorem sampler_slots_from_distinct_positions:
  "\<exists>js. distinct js \<and> set js \<subseteq> {..<length pool}
      \<and> nonEmptySlots (fst (pickStratagemsWithConstraints rnd p pool cnt)) = map ((!) pool) js"
  using sampler_mset by (rule submultiset_positions)

text \<open>
  C4: for every pool with at most one backpack item and at most one non-expendable support
  weapon, every count with \<open>0 < cnt \<le> length pool\<close> and every sequence of random
  draws, the sampler returns the first retry attempt: \<open>cnt\<close> slots, none of them empty,
  holding the pool's entries at pairwise different positions.
\<close>

theorem sampler_first_attempt:
  assumes "length (filter hasBackpack pool) \<le> 1"
    and "length (filter notExpendable (filter isSupportWeapon pool)) \<le> 1"
    and "0 < cnt" and "cnt \<le> int (length pool)"
  shows "fst (pickStratagemsWithConstraints rnd p pool cnt)
           = map Some (fst (uniqueSample rnd p pool [] (nat cnt)))
         \<and> int (length (fst (pickStratagemsWithConstraints rnd p pool cnt))) = cnt
         \<and> None \<notin> set (fst (pickStratagemsWithConstraints rnd p pool cnt))
         \<and> (\<exists>js. distinct js \<and> set js \<subseteq> {..<length pool}
               \<and> fst (pickStratagemsWithConstraints rnd p pool cnt) = map (\<lambda>j. Some (pool ! j)) js)"
proof -
  let ?pick = "fst (uniqueSample rnd p pool [] (nat cnt))"
  have sat: "satisfies pool"
    using assms(1,2) by (simp add: satisfies_iff)
  have first: "fst (pickStratagemsWithConstraints rnd p pool cnt) = map Some ?pick"
    using assms(3) retry_first [OF sat assms(3,4), of rnd p 199]
    by (simp add: pickStratagemsWithConstraints_def MAX_TRIES_Suc del: retry.simps)
  have "length ?pick = min (nat cnt) (length pool)"
    by (simp add: uniqueSample_length)
  with assms(3,4) have len: "int (length ?pick) = cnt"
    by simp
  have "mset ?pick \<subseteq># mset pool"
    using uniqueSample_mset [of rnd p pool "[]" "nat cnt"] by simp
  then obtain js where js: "distinct js" "set js \<subseteq> {..<length pool}" "?pick = map ((!) pool) js"
    using submultiset_positions by blast
  have "map Some ?pick = map (\<lambda>j. Some (pool ! j)) js"
    by (subst js(3)) simp
  with js(1,2) have pos: "\<exists>js. distinct js \<and> set js \<subseteq> {..<length pool}
      \<and> map Some ?pick = map (\<lambda>j. Some (pool ! j)) js"
    by blast
  have filled: "None \<notin> set (map Some ?pick)"
    by auto
  from len have "int (length (map Some ?pick)) = cnt"
    by simp
  with pos filled show ?thesis
    unfolding first by blast
qed

text \<open>The pool \<open>[A, C]\<close> with two slots asked for.\<close>

theorem sampler_first_attempt_witness:
  "length (filter hasBackpack [itemA, itemC]) \<le> 1
   \<and> length (filter notExpendable (filter isSupportWeapon [itemA, itemC])) \<le> 1
   \<and> (0::int) < 2 \<and> (2::int) \<le> int (length [itemA, itemC])
   \<and> fst (pickStratagemsWithConstraints zeroDraws 0 [itemA, itemC] 2) = [Some itemA, Some itemC]"
proof -
  have h1: "length (filter hasBackpack [itemA, itemC]) \<le> 1"
    by (simp add: itemA_facts itemC_facts)
  have h2: "length (filter notExpendable (filter isSupportWeapon [itemA, itemC])) \<le> 1"
    by (simp add: itemA_facts itemC_facts)
  have h3: "(0::int) < 2" and h4: "(2::int) \<le> int (length [itemA, itemC])"
    by simp_all
  have "fst (pickStratagemsWithConstraints zeroDraws 0 [itemA, itemC] 2) = [Some itemA, Some itemC]"
    using sampler_first_attempt [OF h1 h2 h3 h4, of zeroDraws 0]
    by (simp add: eval_nat_numeral randomIndex_def zeroDraws_def spliceOut_def)
  with h1 h2 h3 h4 show ?thesis
    by blast
qed

text \<open>
  C5: the constrained sampler is a total function (its loops terminate: the retry loop
  within its budget, the greedy loop because the candidates shrink, as the termination
  proof of \<open>greedy\<close> shows) and no branch of it raises; the selection has exactly
  \<open>cnt\<close> slots when \<open>cnt \<ge> 1\<close> and none when \<open>cnt \<le> 0\<close>, that is \<open>max 0 cnt\<close> slots.
\<close>

theorem sampler_full_length:
  "int (length (fst (pickStratagemsWithConstraints rnd p pool cnt))) = max 0 cnt"
  by (rule sampler_length)

text \<open>
  C6, as amended: for every pool and every count greater than the pool's length, the
  selection has exactly \<open>length pool\<close> non-empty slots and \<open>cnt - length pool\<close> empty
  markers if and only if the pool itself has at most one backpack item and at most one
  non-expendable support weapon. (The greedy fallback drops a candidate that conflicts
  with the items already accepted, so a pool with a conflict fills fewer slots.)
\<close>

theorem sampler_count_exceeds_pool:
  assumes "int (length pool) < cnt"
  shows "(length (nonEmptySlots (fst (pickStratagemsWithConstraints rnd p pool cnt))) = length pool
          \<and> int (emptyCount (fst (pickStratagemsWithConstraints rnd p pool cnt))) = cnt - int (length pool))
       = (length (filter hasBackpack pool) \<le> 1
          \<and> length (filter notExpendable (filter isSupportWeapon pool)) \<le> 1)"
proof -
  let ?sel = "fst (pickStratagemsWithConstraints rnd p pool cnt)"
  from assms have pos: "0 < cnt" by simp
  have total: "int (emptyCount ?sel) + int (length (nonEmptySlots ?sel)) = cnt"
    using count_slots [of ?sel] sampler_length [of rnd p pool cnt] pos by simp
  show ?thesis
  proof (cases "satisfies pool")
    case True
    let ?q = "snd (retry rnd p pool cnt MAX_TRIES)"
    have "?sel = padNulls cnt (fst (greedy rnd ?q cnt [] pool))"
      using pos retry_too_few [OF assms] by (rule sampler_fallback)
    then have "nonEmptySlots ?sel = fst (greedy rnd ?q cnt [] pool)"
      by (simp add: nonEmptySlots_padNulls)
    moreover have "mset (fst (greedy rnd ?q cnt [] pool)) = mset [] + mset pool"
      using True assms by (intro greedy_all) simp_all
    ultimately have "mset (nonEmptySlots ?sel) = mset pool"
      by simp
    then have "length (nonEmptySlots ?sel) = length pool"
      by (metis size_mset)
    with total True show ?thesis
      by (simp add: satisfies_iff)
  next
    case False
    with all_non_empty_satisfies [of rnd p pool cnt]
    have "length (nonEmptySlots ?sel) \<noteq> length pool"
      by blast
    with False show ?thesis
      by (simp add: satisfies_iff)
  qed
qed

text \<open>The pool \<open>[A, C]\<close>, which has no conflict, with three slots asked for.\<close>

theorem sampler_count_exceeds_pool_witness:
  "int (length [itemA, itemC]) < 3
   \<and> length (nonEmptySlots (fst (pickStratagemsWithConstraints zeroDraws 0 [itemA, itemC] 3))) = 2
   \<and> emptyCount (fst (pickStratagemsWithConstraints zeroDraws 0 [itemA, itemC] 3)) = 1"
proof -
  have h: "int (length [itemA, itemC]) < 3"
    by simp
  show ?thesis
    using sampler_count_exceeds_pool [OF h, of zeroDraws 0] by (simp add: itemA_facts itemC_facts)
qed

text \<open>
  C6 as stated fails: the pool \<open>[A, B]\<close> of two backpack items with three slots asked
  for gives one non-empty slot and two empty markers, not two and one.
\<close>

theorem sampler_count_exceeds_pool_counterexample:
  "int (length [itemA, itemB]) < 3
   \<and> fst (pickStratagemsWithConstraints zeroDraws 0 [itemA, itemB] 3) = [Some itemA, None, None]
   \<and> length (nonEmptySlots (fst (pickStratagemsWithConstraints zeroDraws 0 [itemA, itemB] 3)))
       \<noteq> length [itemA, itemB]"
proof -
  have "fst (retry zeroDraws 0 [itemA, itemB] 3 MAX_TRIES) = None"
    by (rule retry_too_few) simp
  then have "fst (pickStratagemsWithConstraints zeroDraws 0 [itemA, itemB] 3)
               = padNulls 3 [itemA]"
    by (simp add: sampler_fallback greedy_two_backpacks)
  then show ?thesis
    by (simp add: padNulls_def nonEmptySlots_def eval_nat_numeral)
qed

text \<open>
  C7: for the pool \<open>[A, B, C]\<close> with \<open>A\<close> and \<open>B\<close> backpack items and \<open>C\<close> not, two
  slots asked for and every sequence of random draws, on the retry path and on the greedy
  fallback path alike, the selection is \<open>C\<close> with exactly one of \<open>A\<close> and \<open>B\<close>, in
  either order, and has no empty slot. The scenario describes the items by their backpack
  only; the theorem holds for all items in which the support-weapon rule cannot interfere.
\<close>

theorem backpack_pair_scenario:
  assumes "hasBackpack A" and "hasBackpack B" and "\<not> hasBackpack C"
    and "length (filter notExpendable (filter isSupportWeapon [A, B, C])) \<le> 1"
  shows "fst (pickStratagemsWithConstraints rnd p [A, B, C] 2)
           \<in> {[Some A, Some C], [Some C, Some A], [Some B, Some C], [Some C, Some B]}"
proof -
  have good: "satisfies [A]" "satisfies [B]" "satisfies [C]"
      "satisfies [A, C]" "satisfies [C, A]" "satisfies [B, C]" "satisfies [C, B]"
    using assms by (auto simp: satisfies_iff split: if_splits)
  have bad: "\<not> satisfies [A, B]" "\<not> satisfies [B, A]"
    using assms by (simp_all add: satisfies_iff)
  have "(0::int) < 2" by simp
  then show ?thesis
  proof (cases rule: sampler_cases [of 2 rnd p "[A, B, C]"])
    case (retry pick p')
    from retry(1) have pick: "satisfies pick" "int (length pick) = 2" "mset pick \<subseteq># mset [A, B, C]"
      using retry_Some by blast+
    from pick(3) obtain js where js: "distinct js" "set js \<subseteq> {..<length [A, B, C]}"
        "pick = map ((!) [A, B, C]) js"
      using submultiset_positions by blast
    from pick(2) js(3) have "length js = 2"
      by simp
    with js have "pick \<in> {[A, B], [B, A], [A, C], [C, A], [B, C], [C, B]}"
      using two_of_three [of js A B C] by simp
    with pick(1) bad have "pick \<in> {[A, C], [C, A], [B, C], [C, B]}"
      by auto
    with retry(2) show ?thesis
      by auto
  next
    case (fallback p')
    have a: "fst (greedy rnd (Suc p') 2 [A] [B, C]) = [A, C]"
      using greedy_two [of "[A]" 2 rnd "Suc p'" B C]
      by (simp add: good bad greedy_one greedy_stop)
    have b: "fst (greedy rnd (Suc p') 2 [B] [A, C]) = [B, C]"
      using greedy_two [of "[B]" 2 rnd "Suc p'" A C]
      by (simp add: good bad greedy_one greedy_stop)
    have c: "fst (greedy rnd (Suc p') 2 [C] [A, B]) \<in> {[C, A], [C, B]}"
      using greedy_two [of "[C]" 2 rnd "Suc p'" A B]
      by (simp add: good bad greedy_stop)
    have "fst (greedy rnd p' 2 [] [A, B, C]) = fst (greedy rnd (Suc p') 2 [A] [B, C])
        \<or> fst (greedy rnd p' 2 [] [A, B, C]) = fst (greedy rnd (Suc p') 2 [B] [A, C])
        \<or> fst (greedy rnd p' 2 [] [A, B, C]) = fst (greedy rnd (Suc p') 2 [C] [A, B])"
      using greedy_three [of "[]" 2 rnd p' A B C] by (simp add: good)
    with a b c have "fst (greedy rnd p' 2 [] [A, B, C]) \<in> {[A, C], [C, A], [B, C], [C, B]}"
      by auto
    with fallback(2) show ?thesis
      by (auto simp: padNulls_def)
  qed
qed

text \<open>The scenario with the three concrete items, none of them a support weapon.\<close>

theorem backpack_pair_scenario_witness:
  "hasBackpack itemA \<and> hasBackpack itemB \<and> \<not> hasBackpack itemC
   \<and> length (filter notExpendable (filter isSupportWeapon [itemA, itemB, itemC])) \<le> 1
   \<and> fst (pickStratagemsWithConstraints zeroDraws 0 [itemA, itemB, itemC] 2)
         \<in> {[Some itemA, Some itemC], [Some itemC, Some itemA],
             [Some itemB, Some itemC], [Some itemC, Some itemB]}"
proof -
  have h: "length (filter notExpendable (filter isSupportWeapon [itemA, itemB, itemC])) \<le> 1"
    by (simp add: itemA_facts itemB_facts itemC_facts)
  from backpack_pair_scenario [OF itemA_facts(1) itemB_facts(1) itemC_facts(1) h, of zeroDraws 0]
  show ?thesis
    using h itemA_facts(1) itemB_facts(1) itemC_facts(1) by blast
qed

text \<open>
  C8: for every source pool, grouping field, number of slots and sequence of random draws,
  and for every lower-casing function of the platform, no two items returned by the
  group-partitioned sampler have the same lowercase value of the grouping field, and when
  the source has at least as many different non-empty lowercase values (that is, non-empty
  buckets) as slots are asked for, every slot is filled.
\<close>

theorem group_picks_distinct_buckets:
  "distinct (map (bucketKey lower field) (nonEmptySlots (fst (groupByPicks lower rnd p source field n))))
   \<and> (n \<le> card (bucketKey lower field ` set source - {[]}) \<longrightarrow>
        length (fst (groupByPicks lower rnd p source field n)) = n
        \<and> None \<notin> set (fst (groupByPicks lower rnd p source field n)))"
proof -
  let ?b = "buildBuckets lower field source"
  have wb: "wellBucketed lower field ?b"
    by (rule wellBucketed_buildBuckets)
  then have dk: "distinct (map fst ?b)"
    by (simp add: wellBucketed_def)
  have "distinct (map (bucketKey lower field) (nonEmptySlots (fst (groupLoop rnd p ?b (map fst ?b) [] n))))
      \<and> [] \<notin> bucketKey lower field ` set (nonEmptySlots (fst (groupLoop rnd p ?b (map fst ?b) [] n)))"
    using wb dk by (rule groupLoop_keys) (simp_all add: nonEmptySlots_def)
  then have first: "distinct (map (bucketKey lower field) (nonEmptySlots (fst (groupByPicks lower rnd p source field n))))"
    by (simp add: groupByPicks_def Let_def)
  have len: "length (fst (groupByPicks lower rnd p source field n)) = n"
    by (simp add: groupByPicks_def Let_def groupLoop_length)
  have "None \<notin> set (fst (groupByPicks lower rnd p source field n))"
    if "n \<le> card (bucketKey lower field ` set source - {[]})"
  proof -
    have "card (bucketKey lower field ` set source - {[]}) = length (map fst ?b)"
      using distinct_card [OF dk] keys_buildBuckets [of lower field source] by simp
    with that have "n \<le> length (map fst ?b)"
      by simp
    with wb have "None \<notin> set (fst (groupLoop rnd p ?b (map fst ?b) [] n))"
      by (intro groupLoop_filled [where lower = lower and field = field]) simp_all
    then show ?thesis
      by (simp add: groupByPicks_def Let_def)
  qed
  with first len show ?thesis
    by blast
qed

text \<open>
  Three items with different names, grouped by \<open>Name\<close>, two slots; the lower-casing
  function is the one of the letters \<open>A..Z\<close>.
\<close>

theorem group_picks_distinct_buckets_witness:
  "2 \<le> card (bucketKey toLowerCase ''Name'' ` set [itemA, itemB, itemS] - {[]})
   \<and> length (fst (groupByPicks toLowerCase zeroDraws 0 [itemA, itemB, itemS] ''Name'' 2)) = 2
   \<and> None \<notin> set (fst (groupByPicks toLowerCase zeroDraws 0 [itemA, itemB, itemS] ''Name'' 2))"
proof -
  have h: "2 \<le> card (bucketKey toLowerCase ''Name'' ` set [itemA, itemB, itemS] - {[]})"
    by (simp add: bucket_names)
  show ?thesis
    using h group_picks_distinct_buckets [of toLowerCase "''Name''" zeroDraws 0 "[itemA, itemB, itemS]" 2] by blast
qed

text \<open>
  C9: an item whose \<open>Has Backpack\<close> is missing, or is a string other than "true" up to
  case, is not a backpack item for \<open>satisfies\<close>: the backpack count of a list is the same
  with and without it. Reading the field never raises: \<open>hasBackpack\<close> is total.
\<close>

theorem non_true_backpack_not_counted:
  assumes "getProp x ''Has Backpack'' = None
           \<or> (\<exists>s. getProp x ''Has Backpack'' = Some s \<and> toLowerCase s \<noteq> ''true'')"
  shows "\<not> hasBackpack x
         \<and> length (filter hasBackpack (xs @ x # ys)) = length (filter hasBackpack (xs @ ys))"
proof -
  from assms have "\<not> hasBackpack x"
    by (auto simp: hasBackpack_def orEmpty_def toLowerCase_def)
  then show ?thesis by simp
qed

text \<open>An item without the column, between a backpack item and another item.\<close>

theorem non_true_backpack_not_counted_witness:
  "getProp itemS ''Has Backpack'' = None
   \<and> \<not> hasBackpack itemS
   \<and> length (filter hasBackpack ([itemA] @ itemS # [itemC]))
       = length (filter hasBackpack ([itemA] @ [itemC]))"
proof -
  have h: "getProp itemS ''Has Backpack'' = None"
    by (simp add: getProp_def itemS_def)
  then have "getProp itemS ''Has Backpack'' = None
      \<or> (\<exists>s. getProp itemS ''Has Backpack'' = Some s \<and> toLowerCase s \<noteq> ''true'')"
    by simp
  from non_true_backpack_not_counted [OF this, of "[itemA]" "[itemC]"] h show ?thesis
    by simp
qed

text \<open>
  C10: in the group-partitioned sampler an item whose grouping field is missing or empty
  is in no bucket and in no slot of the returned selection, for every source pool, number
  of slots and sequence of random draws, and for every lower-casing function that leaves
  the empty string empty, as \<open>String.prototype.toLowerCase\<close> does.
\<close>

theorem group_picks_skip_empty_key:
  assumes "lower [] = []"
    and "getProp x field = None \<or> getProp x field = Some []"
  shows "(\<forall>(k, arr) \<in> set (buildBuckets lower field source). x \<notin> set arr)
       \<and> Some x \<notin> set (fst (groupByPicks lower rnd p source field n))"
proof -
  let ?b = "buildBuckets lower field source"
  from assms have key: "bucketKey lower field x = []"
    by (auto simp: bucketKey_def orEmpty_def)
  have wb: "wellBucketed lower field ?b"
    by (rule wellBucketed_buildBuckets)
  then have dk: "distinct (map fst ?b)"
    by (simp add: wellBucketed_def)
  have "x \<notin> set arr" if "(k, arr) \<in> set ?b" for k arr
    using wb that key by (auto simp: wellBucketed_def)
  then have buckets: "\<forall>(k, arr) \<in> set ?b. x \<notin> set arr"
    by auto
  have none: "[] \<notin> bucketKey lower field ` set (nonEmptySlots (fst (groupLoop rnd p ?b (map fst ?b) [] n)))"
    using groupLoop_keys [OF wb dk, of "[]" rnd p n] by (simp add: nonEmptySlots_def)
  have "x \<notin> set (nonEmptySlots (fst (groupByPicks lower rnd p source field n)))"
  proof
    assume "x \<in> set (nonEmptySlots (fst (groupByPicks lower rnd p source field n)))"
    then have "x \<in> set (nonEmptySlots (fst (groupLoop rnd p ?b (map fst ?b) [] n)))"
      by (simp add: groupByPicks_def Let_def)
    then have "bucketKey lower field x
                 \<in> bucketKey lower field ` set (nonEmptySlots (fst (groupLoop rnd p ?b (map fst ?b) [] n)))"
      by (rule imageI)
    with none show False
      unfolding key by simp
  qed
  moreover have "Some y \<in> set sel \<Longrightarrow> y \<in> set (nonEmptySlots sel)" for y :: item and sel
    by (force simp: nonEmptySlots_def)
  ultimately have "Some x \<notin> set (fst (groupByPicks lower rnd p source field n))"
    by blast
  with buckets show ?thesis
    by simp
qed


text \<open>Grouping by \<open>Subtype\<close>, which item \<open>A\<close> does not have.\<close>

theorem group_picks_skip_empty_key_witness:
  "toLowerCase [] = []
   \<and> getProp itemA ''Subtype'' = None
   \<and> Some itemA \<notin> set (fst (groupByPicks toLowerCase zeroDraws 0 [itemA, itemS] ''Subtype'' 2))"
proof -
  have l: "toLowerCase [] = []"
    by (simp add: toLowerCase_def)
  have h: "getProp itemA ''Subtype'' = None"
    by (simp add: getProp_def itemA_def)
  then have "getProp itemA ''Subtype'' = None \<or> getProp itemA ''Subtype'' = Some []"
    by simp
  from group_picks_skip_empty_key
         [where lower = toLowerCase and x = itemA and field = "''Subtype''"
            and source = "[itemA, itemS]" and rnd = zeroDraws and p = 0 and n = 2, OF l this]
    l h
  show ?thesis
    by simp
qed

end
